theory Spec2Isabelle
  imports Complex_Main "HOL-Library.Multiset" "HOL-Library.Char_ord" "HOL-Library.List_Lexorder"
    "HOL-Library.Product_Lexorder"
begin

section \<open>Data model of \<open>hospital_app.py\<close>\<close>

text \<open>
  One row of the data frame built by \<open>generate_data\<close>: the dictionary appended at
  lines 44-50. The \<open>date\<close> column holds the elements of
  \<open>pd.date_range(end=datetime.today(), periods=30)\<close>, which are timestamps (the time of
  day of \<open>datetime.today()\<close> is kept, \<open>date_range\<close> is not asked to normalise); a
  timestamp is modelled as the number of microseconds since the epoch. The \<open>occupied\<close>
  column holds the integers 0 and 1.
\<close>

record row =
  date :: int
  hospital :: string
  ward :: string
  bed_id :: string
  occupied :: int

datatype error = KeyError | ValueError | ZeroDivisionError

subsection \<open>Rendering of the bed counter: \<open>f"B-{bed_no}"\<close>\<close>

definition digit_char :: "nat \<Rightarrow> char" where
  "digit_char d = char_of (48 + d)"

function str_nat :: "nat \<Rightarrow> string" where
  "str_nat n = (if n < 10 then [digit_char n] else str_nat (n div 10) @ [digit_char (n mod 10)])"
  by pat_completeness auto
termination
  by (relation "measure (\<lambda>n. n)") auto

declare str_nat.simps [simp del]

definition mk_bed_id :: "nat \<Rightarrow> string" where
  "mk_bed_id bed_no = ''B-'' @ str_nat bed_no"

text \<open>Reading a decimal numeral back; used only to show that the rendering is injective.\<close>

definition digit_val :: "char \<Rightarrow> nat" where
  "digit_val c = of_char c - 48"

definition nat_of_str :: "string \<Rightarrow> nat" where
  "nat_of_str s = foldl (\<lambda>acc c. 10 * acc + digit_val c) 0 s"

subsection \<open>The constants of \<open>generate_data\<close>\<close>

definition hospitals :: "string list" where
  "hospitals = [''City Hospital'', ''Central Hospital'', ''National Medical Center'']"

definition wards :: "string list" where
  "wards = [''ICU'', ''Emergency'', ''General'', ''Maternity'']"

text \<open>The dictionary literal of line 40; a missing key raises \<open>KeyError\<close>.\<close>

definition capacity_of :: "string \<Rightarrow> int option" where
  "capacity_of w =
     (if w = ''ICU'' then Some 20
      else if w = ''Emergency'' then Some 30
      else if w = ''General'' then Some 50
      else if w = ''Maternity'' then Some 25
      else None)"

text \<open>
  \<open>int(capacity*0.5)\<close>: halving an integer is exact in binary floating point, and
  \<open>int\<close> truncates towards zero.
\<close>

definition int_half :: "int \<Rightarrow> int" where
  "int_half c = (if 0 \<le> c then c div 2 else - ((- c) div 2))"

definition day_us :: int where
  "day_us = 86400000000"

text \<open>
  \<open>pd.date_range(end=today, periods=n)\<close> with the default daily frequency: \<open>n\<close>
  timestamps one day apart, the last one being \<open>today\<close> itself.
\<close>

definition date_range_end :: "int \<Rightarrow> nat \<Rightarrow> int list" where
  "date_range_end today periods =
     map (\<lambda>k. today - (int periods - 1 - int k) * day_us) [0..<periods]"

text \<open>\<open>.dt.date\<close>: the calendar day of a timestamp, as a day number.\<close>

definition date_of :: "int \<Rightarrow> int" where
  "date_of ts = ts div day_us"

section \<open>The generator\<close>

text \<open>
  The loops of lines 37-51 mutate three things: the state of numpy's global random
  stream, the counter \<open>bed_no\<close> and the list \<open>data\<close>. The model passes them along as a
  triple. numpy's generator is outside the repository; it is a parameter:
  \<open>randint low high g\<close> is the draw and the advanced stream, and \<open>seed_fn\<close> is
  \<open>np.random.seed\<close>. \<open>np.random.randint\<close> raises \<open>ValueError\<close> unless \<open>low < high\<close>.
\<close>

definition mk_row :: "int \<Rightarrow> string \<Rightarrow> string \<Rightarrow> int \<Rightarrow> nat \<Rightarrow> nat \<Rightarrow> row" where
  "mk_row d h w occ bed_no i =
     \<lparr>date = d, hospital = h, ward = w, bed_id = mk_bed_id bed_no,
      occupied = (if int i < occ then 1 else 0)\<rparr>"

text \<open>Lines 43-51, over the elements of \<open>range(capacity)\<close>.\<close>

fun bed_loop :: "int \<Rightarrow> string \<Rightarrow> string \<Rightarrow> int \<Rightarrow> nat list \<Rightarrow> nat \<times> row list \<Rightarrow> nat \<times> row list" where
  "bed_loop d h w occ [] st = st"
| "bed_loop d h w occ (i # is) (bed_no, data) =
     bed_loop d h w occ is (bed_no + 1, data @ [mk_row d h w occ bed_no i])"

definition range_py :: "int \<Rightarrow> nat list" where
  "range_py n = [0..<nat n]"

text \<open>Lines 39-51.\<close>

fun ward_loop :: "(int \<Rightarrow> int \<Rightarrow> 'g \<Rightarrow> int \<times> 'g) \<Rightarrow> int \<Rightarrow> string \<Rightarrow> string list \<Rightarrow>
    'g \<times> nat \<times> row list \<Rightarrow> error + ('g \<times> nat \<times> row list)" where
  "ward_loop randint d h [] st = Inr st"
| "ward_loop randint d h (w # ws) (g, bed_no, data) =
     (case capacity_of w of
        None \<Rightarrow> Inl KeyError
      | Some capacity \<Rightarrow>
          if \<not> int_half capacity < capacity then Inl ValueError
          else
            (case randint (int_half capacity) capacity g of
               (occ, g') \<Rightarrow>
                 (case bed_loop d h w occ (range_py capacity) (bed_no, data) of
                    (bed_no', data') \<Rightarrow> ward_loop randint d h ws (g', bed_no', data'))))"

text \<open>Lines 38-51.\<close>

fun hosp_loop :: "(int \<Rightarrow> int \<Rightarrow> 'g \<Rightarrow> int \<times> 'g) \<Rightarrow> int \<Rightarrow> string list \<Rightarrow>
    'g \<times> nat \<times> row list \<Rightarrow> error + ('g \<times> nat \<times> row list)" where
  "hosp_loop randint d [] st = Inr st"
| "hosp_loop randint d (h # hs) st =
     (case ward_loop randint d h wards st of
        Inl e \<Rightarrow> Inl e
      | Inr st' \<Rightarrow> hosp_loop randint d hs st')"

text \<open>Lines 37-51.\<close>

fun date_loop :: "(int \<Rightarrow> int \<Rightarrow> 'g \<Rightarrow> int \<times> 'g) \<Rightarrow> int list \<Rightarrow>
    'g \<times> nat \<times> row list \<Rightarrow> error + ('g \<times> nat \<times> row list)" where
  "date_loop randint [] st = Inr st"
| "date_loop randint (d # ds) st =
     (case hosp_loop randint d hospitals st of
        Inl e \<Rightarrow> Inl e
      | Inr st' \<Rightarrow> date_loop randint ds st')"

text \<open>
  \<open>generate_data\<close> (lines 27-53). \<open>today\<close> is the value \<open>datetime.today()\<close> returns when
  the function runs.
\<close>

definition generate_data :: "(int \<Rightarrow> int \<Rightarrow> 'g \<Rightarrow> int \<times> 'g) \<Rightarrow> (nat \<Rightarrow> 'g) \<Rightarrow> int \<Rightarrow> error + row list" where
  "generate_data randint seed_fn today =
     (case date_loop randint (date_range_end today 30) (seed_fn 42, 1, []) of
        Inl e \<Rightarrow> Inl e
      | Inr (g, bed_no, data) \<Rightarrow> Inr data)"


subsection \<open>The loops as one loop over the groups\<close>

text \<open>
  A proof device, not source code: the three nested loops visit the groups
  (date, hospital, ward) in the order of \<open>all_keys\<close>, and the body of the innermost one
  appends one block of rows. \<open>group_loop\<close> is that single loop; it is shown below to
  compute what \<open>date_loop\<close> computes.
\<close>

type_synonym gkey = "int \<times> string \<times> string"

definition block :: "int \<Rightarrow> string \<Rightarrow> string \<Rightarrow> int \<Rightarrow> nat \<Rightarrow> nat \<Rightarrow> row list" where
  "block d h w occ b n = map (\<lambda>i. mk_row d h w occ (b + i) i) [0..<n]"

fun group_loop :: "(int \<Rightarrow> int \<Rightarrow> 'g \<Rightarrow> int \<times> 'g) \<Rightarrow> gkey list \<Rightarrow>
    'g \<times> nat \<times> row list \<Rightarrow> error + ('g \<times> nat \<times> row list)" where
  "group_loop randint [] st = Inr st"
| "group_loop randint ((d, h, w) # ks) (g, bed_no, data) =
     (case capacity_of w of
        None \<Rightarrow> Inl KeyError
      | Some capacity \<Rightarrow>
          if \<not> int_half capacity < capacity then Inl ValueError
          else
            (case randint (int_half capacity) capacity g of
               (occ, g') \<Rightarrow>
                 group_loop randint ks
                   (g', bed_no + nat capacity, data @ block d h w occ bed_no (nat capacity))))"

definition ward_keys :: "int \<Rightarrow> string \<Rightarrow> gkey list" where
  "ward_keys d h = map (\<lambda>w. (d, h, w)) wards"

definition hosp_keys :: "int \<Rightarrow> gkey list" where
  "hosp_keys d = concat (map (ward_keys d) hospitals)"

definition all_keys :: "int list \<Rightarrow> gkey list" where
  "all_keys ds = concat (map hosp_keys ds)"

text \<open>The rows of one (date, hospital, ward) group.\<close>

definition in_group :: "int \<Rightarrow> string \<Rightarrow> string \<Rightarrow> row \<Rightarrow> bool" where
  "in_group d h w r \<longleftrightarrow> date r = d \<and> hospital r = h \<and> ward r = w"

subsection \<open>The random stream\<close>

text \<open>
  What the results below need from \<open>np.random.randint(low, high)\<close> is its documented
  range: a draw lies in the half-open interval from \<open>low\<close> to \<open>high\<close>.
\<close>

definition randint_spec :: "(int \<Rightarrow> int \<Rightarrow> 'g \<Rightarrow> int \<times> 'g) \<Rightarrow> bool" where
  "randint_spec randint \<longleftrightarrow>
     (\<forall>low high g. low < high \<longrightarrow>
        low \<le> fst (randint low high g) \<and> fst (randint low high g) < high)"

text \<open>
  numpy's Mersenne Twister is not part of the repository. Where a concrete stream is
  needed to run the model, a linear congruential generator stands in for it.
\<close>

definition lcg_seed :: "nat \<Rightarrow> nat" where
  "lcg_seed s = s"

definition lcg_randint :: "int \<Rightarrow> int \<Rightarrow> nat \<Rightarrow> int \<times> nat" where
  "lcg_randint low high g =
     (low + int (g mod nat (high - low)), (1103515245 * g + 12345) mod 2147483648)"

section \<open>The filter pipeline\<close>

text \<open>
  The values of the sidebar widgets (lines 60-83): the chosen hospital or \<open>"All"\<close>, the
  list of chosen wards, the bed status, the check box and the pair of calendar days of
  the slider (as day numbers).
\<close>

record filter_criteria =
  hospital_sel :: string
  ward_sel :: "string list"
  bed_status :: string
  critical_view :: bool
  date_range :: "int \<times> int"

text \<open>Lines 86-104, statement by statement.\<close>

definition filter_data :: "filter_criteria \<Rightarrow> row list \<Rightarrow> row list" where
  "filter_data fc df =
     (let data = df;
          data = (if hospital_sel fc \<noteq> ''All''
                  then filter (\<lambda>r. hospital r = hospital_sel fc) data else data);
          data = filter (\<lambda>r. ward r \<in> set (ward_sel fc)) data;
          data = (if critical_view fc
                  then filter (\<lambda>r. ward r \<in> set [''ICU'', ''Emergency'']) data else data);
          data = (if bed_status fc = ''Available'' then filter (\<lambda>r. occupied r = 0) data
                  else if bed_status fc = ''Occupied'' then filter (\<lambda>r. occupied r = 1) data
                  else data);
          data = filter (\<lambda>r. fst (date_range fc) \<le> date_of (date r) \<and>
                              date_of (date r) \<le> snd (date_range fc)) data
      in data)"

text \<open>The five statements one by one, to be applied in any order.\<close>

datatype filter_step = HospitalF | WardF | CriticalF | StatusF | DateF

fun apply_step :: "filter_criteria \<Rightarrow> filter_step \<Rightarrow> row list \<Rightarrow> row list" where
  "apply_step fc HospitalF data =
     (if hospital_sel fc \<noteq> ''All''
      then filter (\<lambda>r. hospital r = hospital_sel fc) data else data)"
| "apply_step fc WardF data = filter (\<lambda>r. ward r \<in> set (ward_sel fc)) data"
| "apply_step fc CriticalF data =
     (if critical_view fc
      then filter (\<lambda>r. ward r \<in> set [''ICU'', ''Emergency'']) data else data)"
| "apply_step fc StatusF data =
     (if bed_status fc = ''Available'' then filter (\<lambda>r. occupied r = 0) data
      else if bed_status fc = ''Occupied'' then filter (\<lambda>r. occupied r = 1) data
      else data)"
| "apply_step fc DateF data =
     filter (\<lambda>r. fst (date_range fc) \<le> date_of (date r) \<and>
                 date_of (date r) \<le> snd (date_range fc)) data"

definition apply_steps :: "filter_criteria \<Rightarrow> filter_step list \<Rightarrow> row list \<Rightarrow> row list" where
  "apply_steps fc steps df = foldl (\<lambda>data s. apply_step fc s data) df steps"

definition source_order :: "filter_step list" where
  "source_order = [HospitalF, WardF, CriticalF, StatusF, DateF]"

text \<open>The row predicate each statement keeps.\<close>

fun step_pred :: "filter_criteria \<Rightarrow> filter_step \<Rightarrow> row \<Rightarrow> bool" where
  "step_pred fc HospitalF r \<longleftrightarrow> hospital_sel fc = ''All'' \<or> hospital r = hospital_sel fc"
| "step_pred fc WardF r \<longleftrightarrow> ward r \<in> set (ward_sel fc)"
| "step_pred fc CriticalF r \<longleftrightarrow> \<not> critical_view fc \<or> ward r \<in> {''ICU'', ''Emergency''}"
| "step_pred fc StatusF r \<longleftrightarrow>
     (if bed_status fc = ''Available'' then occupied r = 0
      else if bed_status fc = ''Occupied'' then occupied r = 1 else True)"
| "step_pred fc DateF r \<longleftrightarrow>
     fst (date_range fc) \<le> date_of (date r) \<and> date_of (date r) \<le> snd (date_range fc)"

section \<open>The key figures and the views\<close>

text \<open>\<open>Series.nunique()\<close>: the number of distinct values.\<close>

definition nunique :: "'a list \<Rightarrow> nat" where
  "nunique xs = length (remdups xs)"

text \<open>
  Python's \<open>/\<close> on scalars (line 110), taken to raise on a zero divisor. Floating-point
  quotients are idealised as exact rationals throughout.
\<close>

definition py_div :: "int \<Rightarrow> int \<Rightarrow> error + rat" where
  "py_div a b = (if b = 0 then Inl ZeroDivisionError else Inr (of_int a / of_int b))"

text \<open>
  \<open>/\<close> on two pandas columns never raises: a zero divisor gives a non-finite float
  (\<open>inf\<close> or \<open>NaN\<close>), modelled as \<open>None\<close>.
\<close>

definition series_div :: "int \<Rightarrow> int \<Rightarrow> rat option" where
  "series_div a b = (if b = 0 then None else Some (of_int a / of_int b))"

record kpi =
  kpi_total_beds :: int
  kpi_occupied :: int
  kpi_available :: int
  kpi_occ_rate :: rat

text \<open>Lines 107-110.\<close>

definition kpis :: "row list \<Rightarrow> error + kpi" where
  "kpis data =
     (let total_beds = int (nunique (map bed_id data));
          occupied_sum = sum_list (map occupied data);
          available = total_beds - occupied_sum
      in if total_beds \<noteq> 0
         then (case py_div occupied_sum total_beds of
                 Inl e \<Rightarrow> Inl e
               | Inr q \<Rightarrow> Inr \<lparr>kpi_total_beds = total_beds, kpi_occupied = occupied_sum,
                               kpi_available = available, kpi_occ_rate = q * 100\<rparr>)
         else Inr \<lparr>kpi_total_beds = total_beds, kpi_occupied = occupied_sum,
                   kpi_available = available, kpi_occ_rate = 0\<rparr>)"

text \<open>
  \<open>data.groupby(key)\<close> with the default \<open>sort=True\<close>: one group for each key value that
  occurs, in ascending order of the key, holding the rows with that key in their order.
\<close>

definition groupby :: "(row \<Rightarrow> 'k::linorder) \<Rightarrow> row list \<Rightarrow> ('k \<times> row list) list" where
  "groupby key data =
     map (\<lambda>k. (k, filter (\<lambda>r. key r = k) data)) (sort (remdups (map key data)))"

text \<open>
  The shape shared by lines 121-125, 134-138, 147-151 and 164-168:
  \<open>.agg(total=("bed_id", "nunique"), occupied=("occupied", "sum")).reset_index()\<close>
  and then a percentage column \<open>occupied / total * 100\<close> (named \<open>occupancy_pct\<close>,
  \<open>usage_pct\<close>, \<open>occ_pct\<close> or \<open>pct\<close>).
\<close>

record 'k occ_row =
  grp :: 'k
  total :: int
  occ_sum :: int
  pct :: "rat option"

definition occ_agg :: "(row \<Rightarrow> 'k::linorder) \<Rightarrow> row list \<Rightarrow> 'k occ_row list" where
  "occ_agg key data =
     map (\<lambda>(k, rows).
            let t = int (nunique (map bed_id rows)); s = sum_list (map occupied rows)
            in \<lparr>grp = k, total = t, occ_sum = s,
                pct = map_option (\<lambda>q. q * 100) (series_div s t)\<rparr>)
         (groupby key data)"

definition trend :: "row list \<Rightarrow> int occ_row list" where
  "trend data = occ_agg date data"

definition ward_util :: "row list \<Rightarrow> string occ_row list" where
  "ward_util data = occ_agg ward data"

definition hospital_util :: "row list \<Rightarrow> string occ_row list" where
  "hospital_util data = occ_agg hospital data"

text \<open>Lines 160-162.\<close>

definition category :: "row \<Rightarrow> string" where
  "category r = (if ward r \<in> set [''ICU'', ''Emergency''] then ''Critical'' else ''Non-Critical'')"

definition critical_cmp :: "row list \<Rightarrow> string occ_row list" where
  "critical_cmp data = occ_agg category data"

text \<open>Line 177.\<close>

definition daily_load :: "row list \<Rightarrow> (int \<times> int) list" where
  "daily_load data = map (\<lambda>(k, rows). (k, sum_list (map occupied rows))) (groupby date data)"

text \<open>
  The dictionaries of lines 186 and 214; \<open>Series.map\<close> gives \<open>NaN\<close> (here \<open>None\<close>) for a
  value that is not a key.
\<close>

definition status_label :: "int \<Rightarrow> string option" where
  "status_label v = (if v = 0 then Some ''Available'' else if v = 1 then Some ''Occupied'' else None)"

text \<open>
  \<open>Series.value_counts()\<close>: \<open>NaN\<close> is dropped, each value that occurs gets one row with
  its number of occurrences, and the rows are sorted by that number, largest first.
  Rows with equal counts keep the order of first appearance.
\<close>

definition unique_py :: "'a list \<Rightarrow> 'a list" where
  "unique_py xs = rev (remdups (rev xs))"

definition value_counts :: "'a option list \<Rightarrow> ('a \<times> nat) list" where
  "value_counts xs =
     (let ys = List.map_filter (\<lambda>x. x) xs
      in sort_key (\<lambda>(v, c). - int c) (map (\<lambda>v. (v, count_list ys v)) (unique_py ys)))"

text \<open>Lines 186-187.\<close>

definition availability_dist :: "row list \<Rightarrow> (string \<times> nat) list" where
  "availability_dist data = value_counts (map (\<lambda>r. status_label (occupied r)) data)"

text \<open>Lines 196-198: the mean of the \<open>occupied\<close> column of each (hospital, ward) group.\<close>

definition heatmap :: "row list \<Rightarrow> ((string \<times> string) \<times> rat option) list" where
  "heatmap data =
     map (\<lambda>(k, rows). (k, series_div (sum_list (map occupied rows)) (int (length rows))))
         (groupby (\<lambda>r. (hospital r, ward r)) data)"

text \<open>Lines 214-215.\<close>

definition live_table :: "row list \<Rightarrow> (int \<times> string \<times> string \<times> string \<times> string option) list" where
  "live_table data =
     map (\<lambda>r. (date r, hospital r, ward r, bed_id r, status_label (occupied r))) data"


text \<open>What is claimed of a row of such a view.\<close>

definition occ_row_ok :: "'k occ_row \<Rightarrow> bool" where
  "occ_row_ok x \<longleftrightarrow>
     1 \<le> total x \<and> 0 \<le> occ_sum x \<and> occ_sum x \<le> total x \<and>
     (case pct x of None \<Rightarrow> False | Some p \<Rightarrow> 0 \<le> p \<and> p \<le> 100)"

text \<open>
  Moving the \<open>date\<close> column of a row by a fixed amount of time; used to compare two runs
  of the generator at different instants.
\<close>

definition shift_date :: "int \<Rightarrow> row \<Rightarrow> row" where
  "shift_date delta r = r\<lparr>date := date r + delta\<rparr>"

definition shift_key :: "int \<Rightarrow> gkey \<Rightarrow> gkey" where
  "shift_key delta k = (case k of (d, h, w) \<Rightarrow> (d + delta, h, w))"

section \<open>Properties of the generator\<close>

subsection \<open>Bed identifiers are rendered injectively\<close>

lemma digit_val_digit_char: "d < 10 \<Longrightarrow> digit_val (digit_char d) = d"
  by (simp add: digit_val_def digit_char_def)

lemma nat_of_str_snoc: "nat_of_str (s @ [c]) = 10 * nat_of_str s + digit_val c"
  by (simp add: nat_of_str_def)

lemma nat_of_str_str_nat: "nat_of_str (str_nat n) = n"
proof (induction n rule: str_nat.induct)
  case (1 n)
  show ?case
  proof (cases "n < 10")
    case True
    then show ?thesis
      by (subst str_nat.simps) (simp add: nat_of_str_def digit_val_digit_char)
  next
    case False
    then have "nat_of_str (str_nat (n div 10)) = n div 10" using 1 by simp
    with False show ?thesis
      by (subst str_nat.simps) (simp add: nat_of_str_snoc digit_val_digit_char)
  qed
qed

lemma str_nat_inj: "str_nat m = str_nat n \<Longrightarrow> m = n"
  by (metis nat_of_str_str_nat)

lemma mk_bed_id_inj: "inj mk_bed_id"
  by (auto simp: inj_on_def mk_bed_id_def dest: str_nat_inj)

subsection \<open>The nested loops are the loop over the groups\<close>

lemma bed_loop_eq:
  "bed_loop d h w occ is (b, data) =
     (b + length is, data @ map (\<lambda>(n, i). mk_row d h w occ n i) (List.enumerate b is))"
  by (induction "is" arbitrary: b data) auto

lemma enumerate_upt0: "List.enumerate b [0..<n] = map (\<lambda>i. (b + i, i)) [0..<n]"
  by (induction n) (auto simp: enumerate_append_eq)

lemma bed_loop_range:
  "bed_loop d h w occ (range_py c) (b, data) = (b + nat c, data @ block d h w occ b (nat c))"
  by (simp add: bed_loop_eq range_py_def enumerate_upt0 comp_def block_def)

lemma group_loop_append:
  "group_loop randint (ks1 @ ks2) st =
     (case group_loop randint ks1 st of Inl e \<Rightarrow> Inl e | Inr st' \<Rightarrow> group_loop randint ks2 st')"
proof (induction ks1 arbitrary: st)
  case Nil
  show ?case by simp
next
  case (Cons k ks1)
  obtain d h w where k: "k = (d, h, w)" by (cases k)
  obtain g b data where st: "st = (g, b, data)" by (cases st)
  show ?case unfolding k st
    by (simp add: Cons.IH split: option.split prod.split)
qed

lemma ward_loop_group:
  "ward_loop randint d h ws st = group_loop randint (map (\<lambda>w. (d, h, w)) ws) st"
proof (induction ws arbitrary: st)
  case Nil
  show ?case by simp
next
  case (Cons w ws)
  obtain g b data where st: "st = (g, b, data)" by (cases st)
  show ?case unfolding st
    by (simp add: Cons.IH bed_loop_range split: option.split prod.split)
qed

lemma hosp_loop_group:
  "hosp_loop randint d hs st = group_loop randint (concat (map (ward_keys d) hs)) st"
proof (induction hs arbitrary: st)
  case Nil
  show ?case by simp
next
  case (Cons h hs)
  show ?case
    by (simp add: Cons.IH group_loop_append ward_loop_group ward_keys_def split: sum.split)
qed

lemma date_loop_group:
  "date_loop randint ds st = group_loop randint (all_keys ds) st"
proof (induction ds arbitrary: st)
  case Nil
  show ?case by (simp add: all_keys_def)
next
  case (Cons d ds)
  show ?case using Cons.IH
    by (simp add: group_loop_append hosp_loop_group hosp_keys_def all_keys_def split: sum.split)
qed

lemma set_all_keys: "set (all_keys ds) = set ds \<times> set hospitals \<times> set wards"
  by (auto simp: all_keys_def hosp_keys_def ward_keys_def)

lemma distinct_wards: "distinct wards"
  by (simp add: wards_def)

lemma distinct_hospitals: "distinct hospitals"
  by (simp add: hospitals_def)

lemma distinct_ward_keys: "distinct (ward_keys d h)"
  by (simp add: ward_keys_def distinct_map distinct_wards inj_on_def)

lemma distinct_hosp_keys: "distinct (hosp_keys d)"
  unfolding hosp_keys_def
  by (rule distinct_concat)
     (auto simp: distinct_map distinct_hospitals distinct_ward_keys ward_keys_def inj_on_def wards_def)

lemma distinct_all_keys: "distinct ds \<Longrightarrow> distinct (all_keys ds)"
  unfolding all_keys_def
  by (rule distinct_concat)
     (auto simp: distinct_map distinct_hosp_keys hosp_keys_def ward_keys_def inj_on_def wards_def hospitals_def)

subsection \<open>One step of the loop, and what the loop keeps\<close>

lemma group_loop_Cons:
  "group_loop randint ((d, h, w) # ks) (g, b, data) =
     (case capacity_of w of
        None \<Rightarrow> Inl KeyError
      | Some c \<Rightarrow>
          if \<not> int_half c < c then Inl ValueError
          else group_loop randint ks
                 (snd (randint (int_half c) c g), b + nat c,
                  data @ block d h w (fst (randint (int_half c) c g)) b (nat c)))"
  by (simp split: option.split prod.split)

text \<open>A run that succeeds on \<open>k # ks\<close> is one block followed by a run on \<open>ks\<close>.\<close>

lemma group_loop_ConsE:
  assumes "group_loop randint ((d, h, w) # ks) (g, b, data) = Inr (g', b', data')"
  obtains c where "capacity_of w = Some c" and "int_half c < c"
    and "group_loop randint ks
           (snd (randint (int_half c) c g), b + nat c,
            data @ block d h w (fst (randint (int_half c) c g)) b (nat c)) = Inr (g', b', data')"
  using assms unfolding group_loop_Cons by (auto split: option.splits if_splits)

lemma capacity_of_wards: "w \<in> set wards \<Longrightarrow> \<exists>c. capacity_of w = Some c \<and> int_half c < c"
  by (auto simp: wards_def capacity_of_def int_half_def)

lemma group_loop_ok:
  "\<forall>k\<in>set ks. snd (snd k) \<in> set wards \<Longrightarrow> \<exists>st'. group_loop randint ks st = Inr st'"
proof (induction ks arbitrary: st)
  case Nil
  show ?case by (metis group_loop.simps(1))
next
  case (Cons k ks)
  obtain d h w where k: "k = (d, h, w)" by (cases k)
  obtain g b data where st: "st = (g, b, data)" by (cases st) auto
  from Cons.prems k obtain c where c: "capacity_of w = Some c" "int_half c < c"
    using capacity_of_wards by auto
  from Cons.prems have "\<forall>k\<in>set ks. snd (snd k) \<in> set wards" by simp
  from Cons.IH [OF this] show ?case unfolding k st
    by (simp only: group_loop_Cons c option.case if_False not_not simp_thms)
qed

lemma filter_block:
  "filter (in_group d h w) (block d1 h1 w1 occ b n) =
     (if (d1, h1, w1) = (d, h, w) then block d1 h1 w1 occ b n else [])"
  by (auto simp: block_def in_group_def mk_row_def filter_empty_conv intro: filter_True)

lemma group_loop_filter:
  assumes "group_loop randint ks (g, b, data) = Inr (g', b', data')" and "distinct ks"
  shows "(if (d, h, w) \<in> set ks
          then \<exists>c gk bk. capacity_of w = Some c \<and> int_half c < c \<and>
                 filter (in_group d h w) data' =
                   filter (in_group d h w) data @
                   block d h w (fst (randint (int_half c) c gk)) bk (nat c)
          else filter (in_group d h w) data' = filter (in_group d h w) data)"
  using assms
proof (induction ks arbitrary: g b data)
  case Nil
  then show ?case by simp
next
  case (Cons k ks)
  obtain d1 h1 w1 where k: "k = (d1, h1, w1)" by (cases k)
  from Cons.prems(1) obtain c where c: "capacity_of w1 = Some c" "int_half c < c"
    and run: "group_loop randint ks
           (snd (randint (int_half c) c g), b + nat c,
            data @ block d1 h1 w1 (fst (randint (int_half c) c g)) b (nat c)) = Inr (g', b', data')"
    unfolding k by (rule group_loop_ConsE)
  define occ where "occ = fst (randint (int_half c) c g)"
  define data1 where "data1 = data @ block d1 h1 w1 occ b (nat c)"
  from Cons.prems(2) have dist: "distinct ks" and notin: "k \<notin> set ks" by simp_all
  from run have run1: "group_loop randint ks (snd (randint (int_half c) c g), b + nat c, data1) =
      Inr (g', b', data')"
    by (simp add: data1_def occ_def)
  note IH = Cons.IH [OF run1 dist]
  show ?case
  proof (cases "(d, h, w) = k")
    case True
    with notin IH have "filter (in_group d h w) data' = filter (in_group d h w) data1" by simp
    also have "\<dots> = filter (in_group d h w) data @ block d h w occ b (nat c)"
      using True by (simp add: data1_def filter_block k)
    finally show ?thesis using True c k occ_def by auto
  next
    case False
    then have "filter (in_group d h w) data1 = filter (in_group d h w) data"
      by (auto simp add: data1_def filter_block k)
    with IH False show ?thesis by auto
  qed
qed

lemma map_shift_upt: "map (\<lambda>i. f (b + i)) [0..<n] = map f [b..<b + n]"
  by (induction n) auto

lemma bed_id_block: "map bed_id (block d h w occ b n) = map mk_bed_id [b..<b + n]"
  by (simp add: block_def mk_row_def comp_def map_shift_upt)

lemma group_loop_bed_ids:
  "group_loop randint ks (g, b, data) = Inr (g', b', data') \<Longrightarrow>
     b \<le> b' \<and> map bed_id data' = map bed_id data @ map mk_bed_id [b..<b']"
proof (induction ks arbitrary: g b data)
  case Nil
  then show ?case by simp
next
  case (Cons k ks)
  obtain d1 h1 w1 where k: "k = (d1, h1, w1)" by (cases k)
  from Cons.prems(1) obtain c where c: "capacity_of w1 = Some c" "int_half c < c"
    and run: "group_loop randint ks
           (snd (randint (int_half c) c g), b + nat c,
            data @ block d1 h1 w1 (fst (randint (int_half c) c g)) b (nat c)) = Inr (g', b', data')"
    unfolding k by (rule group_loop_ConsE)
  from Cons.IH [OF run] have le: "b + nat c \<le> b'"
    and ids: "map bed_id data' =
        map bed_id (data @ block d1 h1 w1 (fst (randint (int_half c) c g)) b (nat c)) @
        map mk_bed_id [b + nat c..<b']" by simp_all
  have "[b..<b'] = [b..<b + nat c] @ [b + nat c..<b']"
  proof -
    from le obtain m where "b' = b + nat c + m" by (metis le_iff_add)
    then show ?thesis using upt_add_eq_append [of b "b + nat c" m] by simp
  qed
  then show ?case using le ids by (simp add: bed_id_block)
qed

lemma group_loop_occupied:
  "group_loop randint ks (g, b, data) = Inr (g', b', data') \<Longrightarrow>
     \<forall>r\<in>set data. occupied r = 0 \<or> occupied r = 1 \<Longrightarrow>
     \<forall>r\<in>set data'. occupied r = 0 \<or> occupied r = 1"
proof (induction ks arbitrary: g b data)
  case Nil
  then show ?case by simp
next
  case (Cons k ks)
  obtain d1 h1 w1 where k: "k = (d1, h1, w1)" by (cases k)
  from Cons.prems(1) obtain c where
    run: "group_loop randint ks
           (snd (randint (int_half c) c g), b + nat c,
            data @ block d1 h1 w1 (fst (randint (int_half c) c g)) b (nat c)) = Inr (g', b', data')"
    unfolding k by (rule group_loop_ConsE)
  have "\<forall>r\<in>set (data @ block d1 h1 w1 (fst (randint (int_half c) c g)) b (nat c)).
          occupied r = 0 \<or> occupied r = 1"
    using Cons.prems(2) by (auto simp: block_def mk_row_def)
  from Cons.IH [OF run this] show ?case .
qed

lemma group_loop_keys:
  "group_loop randint ks (g, b, data) = Inr (g', b', data') \<Longrightarrow>
     \<forall>r\<in>set data. (date r, hospital r, ward r) \<in> K \<Longrightarrow> set ks \<subseteq> K \<Longrightarrow>
     \<forall>r\<in>set data'. (date r, hospital r, ward r) \<in> K"
proof (induction ks arbitrary: g b data)
  case Nil
  then show ?case by simp
next
  case (Cons k ks)
  obtain d1 h1 w1 where k: "k = (d1, h1, w1)" by (cases k)
  from Cons.prems(1) obtain c where
    run: "group_loop randint ks
           (snd (randint (int_half c) c g), b + nat c,
            data @ block d1 h1 w1 (fst (randint (int_half c) c g)) b (nat c)) = Inr (g', b', data')"
    unfolding k by (rule group_loop_ConsE)
  have "\<forall>r\<in>set (data @ block d1 h1 w1 (fst (randint (int_half c) c g)) b (nat c)).
          (date r, hospital r, ward r) \<in> K"
    using Cons.prems(2,3) by (auto simp: block_def mk_row_def k)
  from Cons.IH [OF run this] Cons.prems(3) show ?case by simp
qed

subsection \<open>The generated data frame\<close>

lemma lcg_randint_spec: "randint_spec lcg_randint"
  unfolding randint_spec_def lcg_randint_def fst_conv
proof (intro allI impI conjI)
  fix low high :: int and g :: nat
  assume "low < high"
  then have "0 < nat (high - low)" by simp
  then have "g mod nat (high - low) < nat (high - low)" by (rule mod_less_divisor)
  then show "low + int (g mod nat (high - low)) < high" by linarith
  show "low \<le> low + int (g mod nat (high - low))" by simp
qed

lemma distinct_date_range_end: "distinct (date_range_end today n)"
  unfolding date_range_end_def distinct_map
  by (simp add: inj_on_def day_us_def)

lemma today_in_date_range_end: "today \<in> set (date_range_end today 30)"
proof -
  have "today = today - (int 30 - 1 - int 29) * day_us" by simp
  moreover have "(29::nat) \<in> set [0..<30]" by simp
  ultimately show ?thesis unfolding date_range_end_def set_map by (rule image_eqI)
qed

lemma all_keys_wards: "\<forall>k\<in>set (all_keys ds). snd (snd k) \<in> set wards"
  by (auto simp: set_all_keys)

lemma generate_data_run:
  "\<exists>g' b' df. group_loop randint (all_keys (date_range_end today 30)) (seed_fn 42, 1, []) = Inr (g', b', df)
      \<and> generate_data randint seed_fn today = Inr df"
proof -
  from group_loop_ok [OF all_keys_wards] obtain st' where
    "group_loop randint (all_keys (date_range_end today 30)) (seed_fn 42, 1, []) = Inr st'" by blast
  moreover obtain g' b' df where "st' = (g', b', df)" by (cases st') auto
  ultimately show ?thesis by (simp add: generate_data_def date_loop_group)
qed

lemma map_const_replicate: "\<forall>x\<in>set xs. f x = c \<Longrightarrow> map f xs = replicate (length xs) c"
  by (induction xs) auto

lemma occupied_block:
  assumes "0 \<le> occ" and "occ \<le> int n"
  shows "map occupied (block d h w occ b n) = replicate (nat occ) 1 @ replicate (n - nat occ) 0"
proof -
  let ?f = "\<lambda>i. if int i < occ then 1 else (0::int)"
  from assms have le: "nat occ \<le> n" by simp
  then have split: "[0..<n] = [0..<nat occ] @ [nat occ..<n]"
    by (metis le_add_diff_inverse upt_add_eq_append zero_le)
  have "map occupied (block d h w occ b n) = map ?f [0..<n]"
    by (simp add: block_def mk_row_def comp_def)
  also have "\<dots> = map ?f [0..<nat occ] @ map ?f [nat occ..<n]"
    by (subst split) simp
  also have "map ?f [0..<nat occ] = replicate (nat occ) 1"
  proof -
    have "\<forall>x\<in>set [0..<nat occ]. ?f x = 1" by auto
    from map_const_replicate [OF this] show ?thesis by simp
  qed
  also have "map ?f [nat occ..<n] = replicate (n - nat occ) 0"
  proof -
    have "\<forall>x\<in>set [nat occ..<n]. ?f x = 0" using assms by auto
    from map_const_replicate [OF this] show ?thesis by simp
  qed
  finally show ?thesis .
qed

lemma capacity_of_pos: "capacity_of w = Some c \<Longrightarrow> 0 < c \<and> int_half c = c div 2"
  by (auto simp: capacity_of_def int_half_def split: if_splits)


text \<open>
  C1. Every (date, hospital, ward) group of the generated data frame has exactly as many
  rows as the ward's capacity, and every row belongs to such a group.
\<close>

theorem generate_data_group_size:
  "\<exists>df. generate_data randint seed_fn today = Inr df \<and>
     (\<forall>d\<in>set (date_range_end today 30). \<forall>h\<in>set hospitals. \<forall>w\<in>set wards.
        capacity_of w = Some (int (length (filter (in_group d h w) df)))) \<and>
     (\<forall>r\<in>set df. date r \<in> set (date_range_end today 30) \<and> hospital r \<in> set hospitals \<and>
        ward r \<in> set wards)"
proof -
  let ?ds = "date_range_end today 30"
  from generate_data_run [where randint = randint and seed_fn = seed_fn and today = today]
  obtain g' b' df
    where run: "group_loop randint (all_keys ?ds) (seed_fn 42, 1, []) = Inr (g', b', df)"
      and gen: "generate_data randint seed_fn today = Inr df" by blast
  have dist: "distinct (all_keys ?ds)"
    by (rule distinct_all_keys) (rule distinct_date_range_end)
  have size: "capacity_of w = Some (int (length (filter (in_group d h w) df)))"
    if "d \<in> set ?ds" "h \<in> set hospitals" "w \<in> set wards" for d h w
  proof -
    from that have "(d, h, w) \<in> set (all_keys ?ds)" by (simp add: set_all_keys)
    with group_loop_filter [OF run dist, of d h w] obtain c gk bk
      where c: "capacity_of w = Some c"
        and f: "filter (in_group d h w) df = block d h w (fst (randint (int_half c) c gk)) bk (nat c)"
      by auto
    from c have "0 < c" by (simp add: capacity_of_pos)
    with c f show ?thesis by (simp add: block_def)
  qed
  have "\<forall>r\<in>set df. (date r, hospital r, ward r) \<in> set (all_keys ?ds)"
    by (rule group_loop_keys [OF run]) simp_all
  then have "\<forall>r\<in>set df. date r \<in> set ?ds \<and> hospital r \<in> set hospitals \<and> ward r \<in> set wards"
    by (simp add: set_all_keys)
  with gen size show ?thesis by blast
qed

theorem generate_data_group_size_witness:
  "\<exists>df. generate_data lcg_randint lcg_seed 1706625791000000 = Inr df \<and>
     length (filter (in_group 1706625791000000 ''City Hospital'' ''ICU'') df) = 20"
proof -
  from generate_data_group_size [of lcg_randint lcg_seed 1706625791000000] obtain df
    where gen: "generate_data lcg_randint lcg_seed 1706625791000000 = Inr df"
      and size: "\<forall>d\<in>set (date_range_end 1706625791000000 30). \<forall>h\<in>set hospitals. \<forall>w\<in>set wards.
        capacity_of w = Some (int (length (filter (in_group d h w) df)))"
    by blast
  have "''City Hospital'' \<in> set hospitals" by (simp add: hospitals_def)
  moreover have "''ICU'' \<in> set wards" by (simp add: wards_def)
  ultimately have "capacity_of ''ICU'' =
      Some (int (length (filter (in_group 1706625791000000 ''City Hospital'' ''ICU'') df)))"
    using size today_in_date_range_end by blast
  then have "length (filter (in_group 1706625791000000 ''City Hospital'' ''ICU'') df) = 20"
    by (simp add: capacity_of_def)
  with gen show ?thesis by blast
qed

text \<open>
  C2. Provided \<open>randint\<close> keeps to its range, the count drawn for a group lies between
  half the capacity (rounded down) and the capacity (excluded), and within the group, in
  generation order, exactly the first that many rows are occupied.
\<close>

theorem generate_data_occupied_prefix:
  assumes "randint_spec randint"
  shows "\<exists>df. generate_data randint seed_fn today = Inr df \<and>
     (\<forall>d\<in>set (date_range_end today 30). \<forall>h\<in>set hospitals. \<forall>w\<in>set wards.
        \<exists>c gk occ. capacity_of w = Some c \<and> occ = fst (randint (int_half c) c gk) \<and>
           c div 2 \<le> occ \<and> occ < c \<and>
           map occupied (filter (in_group d h w) df) =
             replicate (nat occ) 1 @ replicate (nat (c - occ)) 0)"
proof -
  let ?ds = "date_range_end today 30"
  from generate_data_run [where randint = randint and seed_fn = seed_fn and today = today]
  obtain g' b' df
    where run: "group_loop randint (all_keys ?ds) (seed_fn 42, 1, []) = Inr (g', b', df)"
      and gen: "generate_data randint seed_fn today = Inr df" by blast
  have dist: "distinct (all_keys ?ds)"
    by (rule distinct_all_keys) (rule distinct_date_range_end)
  have grp: "\<exists>c gk occ. capacity_of w = Some c \<and> occ = fst (randint (int_half c) c gk) \<and>
           c div 2 \<le> occ \<and> occ < c \<and>
           map occupied (filter (in_group d h w) df) =
             replicate (nat occ) 1 @ replicate (nat (c - occ)) 0"
    if "d \<in> set ?ds" "h \<in> set hospitals" "w \<in> set wards" for d h w
  proof -
    from that have "(d, h, w) \<in> set (all_keys ?ds)" by (simp add: set_all_keys)
    with group_loop_filter [OF run dist, of d h w] obtain c gk bk
      where c: "capacity_of w = Some c" and lt: "int_half c < c"
        and f: "filter (in_group d h w) df = block d h w (fst (randint (int_half c) c gk)) bk (nat c)"
      by auto
    define occ where "occ = fst (randint (int_half c) c gk)"
    from c have pos: "0 < c" and half: "int_half c = c div 2" by (simp_all add: capacity_of_pos)
    from assms lt have "int_half c \<le> occ" "occ < c"
      unfolding occ_def randint_spec_def by blast+
    with half pos have bounds: "c div 2 \<le> occ" "occ < c" "0 \<le> occ" "occ \<le> int (nat c)" by simp_all
    have "nat c - nat occ = nat (c - occ)" using bounds by simp
    with occupied_block [OF bounds(3,4)] f
    have "map occupied (filter (in_group d h w) df) =
        replicate (nat occ) 1 @ replicate (nat (c - occ)) 0"
      by (simp add: occ_def)
    with c bounds occ_def show ?thesis by blast
  qed
  with gen show ?thesis by blast
qed

theorem generate_data_occupied_prefix_witness:
  "randint_spec lcg_randint \<and>
   (\<exists>df occ. generate_data lcg_randint lcg_seed 1706625791000000 = Inr df \<and>
      10 \<le> occ \<and> occ < 20 \<and>
      map occupied (filter (in_group 1706625791000000 ''City Hospital'' ''ICU'') df) =
        replicate (nat occ) 1 @ replicate (nat (20 - occ)) 0)"
proof -
  let ?t = "1706625791000000 :: int"
  from generate_data_occupied_prefix [OF lcg_randint_spec, of lcg_seed ?t] obtain df
    where gen: "generate_data lcg_randint lcg_seed ?t = Inr df"
      and grp: "\<forall>d\<in>set (date_range_end ?t 30). \<forall>h\<in>set hospitals. \<forall>w\<in>set wards.
        \<exists>c gk occ. capacity_of w = Some c \<and> occ = fst (lcg_randint (int_half c) c gk) \<and>
           c div 2 \<le> occ \<and> occ < c \<and>
           map occupied (filter (in_group d h w) df) =
             replicate (nat occ) 1 @ replicate (nat (c - occ)) 0"
    by blast
  have "''City Hospital'' \<in> set hospitals" by (simp add: hospitals_def)
  moreover have "''ICU'' \<in> set wards" by (simp add: wards_def)
  ultimately obtain c occ where c: "capacity_of ''ICU'' = Some c"
      and occ: "c div 2 \<le> occ" "occ < c"
        "map occupied (filter (in_group ?t ''City Hospital'' ''ICU'') df) =
           replicate (nat occ) 1 @ replicate (nat (c - occ)) 0"
    using grp today_in_date_range_end [of ?t] by blast
  from c have "c = 20" by (simp add: capacity_of_def)
  with occ gen lcg_randint_spec show ?thesis by auto
qed

text \<open>
  C3. The bed identifiers are the renderings of the counter values 1, 2, 3, ... in
  generation order, one per row, and no two rows of the data frame share one.
\<close>

theorem generate_data_bed_ids_unique:
  "\<exists>df. generate_data randint seed_fn today = Inr df \<and>
     map bed_id df = map mk_bed_id [1..<Suc (length df)] \<and> distinct (map bed_id df)"
proof -
  from generate_data_run [where randint = randint and seed_fn = seed_fn and today = today]
  obtain g' b' df
    where run: "group_loop randint (all_keys (date_range_end today 30)) (seed_fn 42, 1, []) =
        Inr (g', b', df)"
      and gen: "generate_data randint seed_fn today = Inr df" by blast
  from group_loop_bed_ids [OF run] have le: "1 \<le> b'"
    and ids: "map bed_id df = map mk_bed_id [1..<b']" by simp_all
  from ids have "length df = b' - 1" by (metis length_map length_upt)
  with le have "b' = Suc (length df)" by simp
  with ids have ids': "map bed_id df = map mk_bed_id [1..<Suc (length df)]" by simp
  have "distinct (map mk_bed_id [1..<Suc (length df)])"
    by (simp add: distinct_map inj_on_subset [OF mk_bed_id_inj])
  with ids' gen show ?thesis by simp
qed

section \<open>Properties of the pipeline\<close>

subsection \<open>The filter pipeline as one row predicate\<close>

lemma apply_step_filter: "apply_step fc s data = filter (step_pred fc s) data"
  by (cases s) (simp_all cong: filter_cong)

lemma foldl_filter:
  "foldl (\<lambda>data s. filter (P s) data) df steps = filter (\<lambda>r. \<forall>s\<in>set steps. P s r) df"
proof (induction steps arbitrary: df)
  case Nil
  show ?case by simp
next
  case (Cons s steps)
  show ?case
    by (simp add: Cons.IH conj_commute cong: filter_cong)
qed

lemma apply_steps_filter:
  "apply_steps fc steps df = filter (\<lambda>r. \<forall>s\<in>set steps. step_pred fc s r) df"
  by (simp add: apply_steps_def apply_step_filter foldl_filter)

lemma filter_data_steps: "filter_data fc df = apply_steps fc source_order df"
  by (simp add: filter_data_def apply_steps_def source_order_def Let_def)

lemma filter_data_filter:
  "filter_data fc df = filter (\<lambda>r. \<forall>s\<in>set source_order. step_pred fc s r) df"
  by (simp only: filter_data_steps apply_steps_filter)

text \<open>
  C5. The five filter statements, applied in any order, give the subset that the
  order of the source gives.
\<close>

theorem filter_order_irrelevant:
  "mset steps = mset source_order \<Longrightarrow> apply_steps fc steps df = filter_data fc df"
proof -
  assume "mset steps = mset source_order"
  then have "set steps = set source_order" by (rule mset_eq_setD)
  then show ?thesis by (simp only: filter_data_filter apply_steps_filter)
qed

theorem filter_order_irrelevant_witness:
  "mset [DateF, StatusF, CriticalF, WardF, HospitalF] = mset source_order \<and>
   apply_steps
     \<lparr>hospital_sel = ''City Hospital'', ward_sel = [''ICU''], bed_status = ''Available'',
      critical_view = False, date_range = (19722, 19752)\<rparr>
     [DateF, StatusF, CriticalF, WardF, HospitalF]
     [\<lparr>date = 1706625791000000, hospital = ''City Hospital'', ward = ''ICU'',
       bed_id = ''B-1'', occupied = 1\<rparr>,
      \<lparr>date = 1706625791000000, hospital = ''City Hospital'', ward = ''ICU'',
       bed_id = ''B-2'', occupied = 0\<rparr>,
      \<lparr>date = 1706625791000000, hospital = ''Central Hospital'', ward = ''ICU'',
       bed_id = ''B-3'', occupied = 0\<rparr>] =
   [\<lparr>date = 1706625791000000, hospital = ''City Hospital'', ward = ''ICU'',
       bed_id = ''B-2'', occupied = 0\<rparr>]"
proof -
  have m: "mset [DateF, StatusF, CriticalF, WardF, HospitalF] = mset source_order"
    by (simp add: source_order_def)
  show ?thesis
  proof (rule conjI)
    show "mset [DateF, StatusF, CriticalF, WardF, HospitalF] = mset source_order" by (rule m)
  next
    show "apply_steps
     \<lparr>hospital_sel = ''City Hospital'', ward_sel = [''ICU''], bed_status = ''Available'',
      critical_view = False, date_range = (19722, 19752)\<rparr>
     [DateF, StatusF, CriticalF, WardF, HospitalF]
     [\<lparr>date = 1706625791000000, hospital = ''City Hospital'', ward = ''ICU'',
       bed_id = ''B-1'', occupied = 1\<rparr>,
      \<lparr>date = 1706625791000000, hospital = ''City Hospital'', ward = ''ICU'',
       bed_id = ''B-2'', occupied = 0\<rparr>,
      \<lparr>date = 1706625791000000, hospital = ''Central Hospital'', ward = ''ICU'',
       bed_id = ''B-3'', occupied = 0\<rparr>] =
   [\<lparr>date = 1706625791000000, hospital = ''City Hospital'', ward = ''ICU'',
       bed_id = ''B-2'', occupied = 0\<rparr>]"
      unfolding filter_order_irrelevant [OF m]
      by (simp add: filter_data_def date_of_def day_us_def)
  qed
qed

subsection \<open>Counting occupied rows\<close>

lemma sum_occupied:
  "\<forall>r\<in>set data. occupied r = 0 \<or> occupied r = 1 \<Longrightarrow>
     sum_list (map occupied data) = int (length (filter (\<lambda>r. occupied r = 1) data))"
  by (induction data) auto

lemma length_split_occupied:
  "\<forall>r\<in>set data. occupied r = 0 \<or> occupied r = 1 \<Longrightarrow>
     length data = length (filter (\<lambda>r. occupied r = 0) data) +
                   length (filter (\<lambda>r. occupied r = 1) data)"
  by (induction data) auto

lemma sum_occupied_bounds:
  assumes "\<forall>r\<in>set data. occupied r = 0 \<or> occupied r = 1"
  shows "0 \<le> sum_list (map occupied data)" and "sum_list (map occupied data) \<le> int (length data)"
  using sum_occupied [OF assms] length_split_occupied [OF assms] by simp_all

lemma nunique_distinct: "distinct xs \<Longrightarrow> nunique xs = length xs"
  by (simp add: nunique_def distinct_remdups_id)

lemma generate_data_rows:
  assumes "generate_data randint seed_fn today = Inr df"
  shows "distinct (map bed_id df)" and "\<forall>r\<in>set df. occupied r = 0 \<or> occupied r = 1"
proof -
  from generate_data_run [where randint = randint and seed_fn = seed_fn and today = today]
  obtain g' b' df'
    where run: "group_loop randint (all_keys (date_range_end today 30)) (seed_fn 42, 1, []) =
        Inr (g', b', df')"
      and gen: "generate_data randint seed_fn today = Inr df'" by blast
  from gen assms have eq: "df' = df" by simp
  from group_loop_bed_ids [OF run] have "map bed_id df = map mk_bed_id [1..<b']"
    by (simp add: eq)
  then show "distinct (map bed_id df)"
    by (simp add: distinct_map inj_on_subset [OF mk_bed_id_inj])
  from group_loop_occupied [OF run] show "\<forall>r\<in>set df. occupied r = 0 \<or> occupied r = 1"
    by (simp add: eq)
qed

lemma filter_data_rows:
  assumes "distinct (map bed_id df)" and "\<forall>r\<in>set df. occupied r = 0 \<or> occupied r = 1"
  shows "distinct (map bed_id (filter_data fc df))"
    and "\<forall>r\<in>set (filter_data fc df). occupied r = 0 \<or> occupied r = 1"
  using assms by (simp_all add: filter_data_filter distinct_map_filter)

subsection \<open>The key figures\<close>

lemma kpis_Inr:
  "kpis data =
     Inr \<lparr>kpi_total_beds = int (nunique (map bed_id data)),
          kpi_occupied = sum_list (map occupied data),
          kpi_available = int (nunique (map bed_id data)) - sum_list (map occupied data),
          kpi_occ_rate =
            (if nunique (map bed_id data) = 0 then 0
             else of_int (sum_list (map occupied data)) /
                  of_int (int (nunique (map bed_id data))) * 100)\<rparr>"
  by (simp add: kpis_def py_div_def Let_def)

lemma pct_bounds:
  fixes s t :: int
  assumes "0 \<le> s" "s \<le> t" "0 < t"
  shows "0 \<le> (of_int s / of_int t * 100 :: rat)" and "(of_int s / of_int t * 100 :: rat) \<le> 100"
proof -
  have t: "(0::rat) < of_int t" using assms by simp
  show "0 \<le> (of_int s / of_int t * 100 :: rat)"
    using assms by (intro mult_nonneg_nonneg divide_nonneg_pos) simp_all
  have "(of_int s :: rat) \<le> of_int t" using assms by simp
  then have "(of_int s / of_int t :: rat) \<le> 1" using t by (simp add: divide_le_eq_1_pos)
  then have "(of_int s / of_int t :: rat) * 100 \<le> 1 * 100" by (rule mult_right_mono) simp
  then show "(of_int s / of_int t * 100 :: rat) \<le> 100" by (simp only: mult_1)
qed

subsection \<open>Grouped views\<close>

lemma groupby_Nil: "groupby key [] = []"
  by (simp add: groupby_def)

lemma occ_agg_Nil: "occ_agg key [] = []"
  by (simp add: occ_agg_def groupby_Nil)

lemma in_groupby:
  "(k, rows) \<in> set (groupby key data) \<longleftrightarrow>
     k \<in> key ` set data \<and> rows = filter (\<lambda>r. key r = k) data"
  by (auto simp: groupby_def)

lemma groupby_nonempty:
  assumes "(k, rows) \<in> set (groupby key data)"
  shows "rows \<noteq> []" and "set rows \<subseteq> set data"
proof -
  from assms have k: "k \<in> key ` set data" and rows: "rows = filter (\<lambda>r. key r = k) data"
    by (simp_all add: in_groupby)
  from k obtain r where "r \<in> set data" "key r = k" by auto
  then have "r \<in> set rows" by (simp add: rows)
  then show "rows \<noteq> []" by auto
  show "set rows \<subseteq> set data" by (auto simp: rows)
qed

lemma occ_agg_row:
  assumes "x \<in> set (occ_agg key data)"
    and "distinct (map bed_id data)" and "\<forall>r\<in>set data. occupied r = 0 \<or> occupied r = 1"
  shows "1 \<le> total x \<and> 0 \<le> occ_sum x \<and> occ_sum x \<le> total x \<and>
         (\<exists>p. pct x = Some p \<and> 0 \<le> p \<and> p \<le> 100)"
proof -
  from assms(1) obtain k rows where kr: "(k, rows) \<in> set (groupby key data)"
    and x: "x = \<lparr>grp = k, total = int (nunique (map bed_id rows)),
                 occ_sum = sum_list (map occupied rows),
                 pct = map_option (\<lambda>q. q * 100)
                   (series_div (sum_list (map occupied rows)) (int (nunique (map bed_id rows))))\<rparr>"
    by (auto simp: occ_agg_def Let_def)
  from kr have rows: "rows = filter (\<lambda>r. key r = k) data" by (simp add: in_groupby)
  from groupby_nonempty [OF kr] have ne: "rows \<noteq> []" and sub: "set rows \<subseteq> set data" by simp_all
  from assms(2) have "distinct (map bed_id rows)" by (simp add: rows distinct_map_filter)
  then have t: "int (nunique (map bed_id rows)) = int (length rows)"
    by (simp add: nunique_distinct)
  from ne have pos: "1 \<le> int (length rows)" by (cases rows) simp_all
  from assms(3) sub have bin: "\<forall>r\<in>set rows. occupied r = 0 \<or> occupied r = 1" by blast
  note sb = sum_occupied_bounds [OF bin]
  from pos have pos': "0 < int (length rows)" by linarith
  define P :: rat where
    "P = of_int (sum_list (map occupied rows)) / of_int (int (length rows)) * 100"
  have "series_div (sum_list (map occupied rows)) (int (length rows)) =
      Some (of_int (sum_list (map occupied rows)) / of_int (int (length rows)))"
    using ne by (simp add: series_div_def)
  then have p: "pct x = Some P"
    unfolding x t P_def by simp
  from pct_bounds [OF sb pos'] have "0 \<le> P" "P \<le> 100" unfolding P_def by simp_all
  with p have "\<exists>p. pct x = Some p \<and> 0 \<le> p \<and> p \<le> 100" by blast
  moreover have "total x = int (length rows)" by (simp add: x t)
  moreover have "occ_sum x = sum_list (map occupied rows)" by (simp add: x)
  ultimately show ?thesis using pos sb by simp
qed

lemma occ_agg_ok:
  assumes "distinct (map bed_id data)" and "\<forall>r\<in>set data. occupied r = 0 \<or> occupied r = 1"
  shows "\<forall>x\<in>set (occ_agg key data). occ_row_ok x"
proof
  fix x assume "x \<in> set (occ_agg key data)"
  from occ_agg_row [OF this assms] show "occ_row_ok x"
    by (auto simp: occ_row_ok_def)
qed

lemma generate_data_group:
  assumes "generate_data randint seed_fn today = Inr df"
    and "d \<in> set (date_range_end today 30)" and "h \<in> set hospitals" and "w \<in> set wards"
  shows "\<exists>c gk bk. capacity_of w = Some c \<and> int_half c < c \<and>
           filter (in_group d h w) df = block d h w (fst (randint (int_half c) c gk)) bk (nat c)"
proof -
  let ?ds = "date_range_end today 30"
  from generate_data_run [where randint = randint and seed_fn = seed_fn and today = today]
  obtain g' b' df'
    where run: "group_loop randint (all_keys ?ds) (seed_fn 42, 1, []) = Inr (g', b', df')"
      and gen: "generate_data randint seed_fn today = Inr df'" by blast
  from gen assms(1) have eq: "df' = df" by simp
  have dist: "distinct (all_keys ?ds)"
    by (rule distinct_all_keys) (rule distinct_date_range_end)
  from assms(2-4) have "(d, h, w) \<in> set (all_keys ?ds)" by (simp add: set_all_keys)
  with group_loop_filter [OF run dist, of d h w] show ?thesis by (simp add: eq)
qed

lemma generate_data_today_row:
  assumes "generate_data randint seed_fn today = Inr df"
  shows "\<exists>r\<in>set df. date r = today \<and> hospital r = ''City Hospital'' \<and> ward r = ''ICU''"
proof -
  have "''City Hospital'' \<in> set hospitals" by (simp add: hospitals_def)
  moreover have "''ICU'' \<in> set wards" by (simp add: wards_def)
  ultimately obtain c gk bk where c: "capacity_of ''ICU'' = Some c"
    and f: "filter (in_group today ''City Hospital'' ''ICU'') df =
        block today ''City Hospital'' ''ICU'' (fst (randint (int_half c) c gk)) bk (nat c)"
    using generate_data_group [OF assms today_in_date_range_end] by blast
  from c have "c = 20" by (simp add: capacity_of_def)
  then have "length (filter (in_group today ''City Hospital'' ''ICU'') df) = 20"
    by (simp add: f block_def)
  then have "filter (in_group today ''City Hospital'' ''ICU'') df \<noteq> []" by auto
  then obtain r where "r \<in> set (filter (in_group today ''City Hospital'' ''ICU'') df)"
    by (meson last_in_set)
  then show ?thesis by (auto simp: in_group_def)
qed

text \<open>
  C8. On the generated data and for any filter criteria: the occupancy rate of the key
  figures lies between 0 and 100 and is 0 when there are no beds; every row of the
  trend, ward, hospital and critical views has at least one bed, an occupied count
  between 0 and the number of beds, and a percentage between 0 and 100.
\<close>

theorem occupancy_pct_bounds:
  assumes "generate_data randint seed_fn today = Inr df"
  shows "(\<exists>k. kpis (filter_data fc df) = Inr k \<and> 0 \<le> kpi_occ_rate k \<and> kpi_occ_rate k \<le> 100 \<and>
            (kpi_total_beds k = 0 \<longrightarrow> kpi_occ_rate k = 0)) \<and>
         (\<forall>x\<in>set (trend (filter_data fc df)). occ_row_ok x) \<and>
         (\<forall>x\<in>set (ward_util (filter_data fc df)). occ_row_ok x) \<and>
         (\<forall>x\<in>set (hospital_util (filter_data fc df)). occ_row_ok x) \<and>
         (\<forall>x\<in>set (critical_cmp (filter_data fc df)). occ_row_ok x)"
proof -
  let ?data = "filter_data fc df"
  note rows = generate_data_rows [OF assms]
  note frows = filter_data_rows [OF rows, of fc]
  from frows(1) have n: "nunique (map bed_id ?data) = length ?data" by (simp add: nunique_distinct)
  note sb = sum_occupied_bounds [OF frows(2)]
  define k where "k = \<lparr>kpi_total_beds = int (length ?data),
          kpi_occupied = sum_list (map occupied ?data),
          kpi_available = int (length ?data) - sum_list (map occupied ?data),
          kpi_occ_rate =
            (if length ?data = 0 then 0
             else of_int (sum_list (map occupied ?data)) / of_int (int (length ?data)) * 100)\<rparr>"
  have k: "kpis ?data = Inr k" unfolding k_def kpis_Inr n ..
  have rate: "0 \<le> kpi_occ_rate k \<and> kpi_occ_rate k \<le> 100"
  proof (cases "length ?data = 0")
    case True
    then show ?thesis by (simp add: k_def)
  next
    case False
    then have "0 < int (length ?data)" by simp
    from pct_bounds [OF sb this] False show ?thesis by (simp add: k_def)
  qed
  have zero: "kpi_total_beds k = 0 \<longrightarrow> kpi_occ_rate k = 0" by (simp add: k_def)
  from k rate zero have "\<exists>k. kpis ?data = Inr k \<and> 0 \<le> kpi_occ_rate k \<and> kpi_occ_rate k \<le> 100 \<and>
            (kpi_total_beds k = 0 \<longrightarrow> kpi_occ_rate k = 0)" by blast
  moreover have "\<forall>x\<in>set (trend ?data). occ_row_ok x"
    unfolding trend_def by (rule occ_agg_ok [OF frows])
  moreover have "\<forall>x\<in>set (ward_util ?data). occ_row_ok x"
    unfolding ward_util_def by (rule occ_agg_ok [OF frows])
  moreover have "\<forall>x\<in>set (hospital_util ?data). occ_row_ok x"
    unfolding hospital_util_def by (rule occ_agg_ok [OF frows])
  moreover have "\<forall>x\<in>set (critical_cmp ?data). occ_row_ok x"
    unfolding critical_cmp_def by (rule occ_agg_ok [OF frows])
  ultimately show ?thesis by (intro conjI)
qed

text \<open>
  C10. On the generated data and for any filter criteria, the number of distinct bed
  identifiers in the filtered subset is its number of rows, and the available count is
  the number of rows with \<open>occupied = 0\<close>.
\<close>

theorem kpi_total_is_row_count:
  assumes "generate_data randint seed_fn today = Inr df"
  shows "\<exists>k. kpis (filter_data fc df) = Inr k \<and>
           kpi_total_beds k = int (length (filter_data fc df)) \<and>
           kpi_available k = int (length (filter (\<lambda>r. occupied r = 0) (filter_data fc df)))"
proof -
  let ?data = "filter_data fc df"
  note rows = generate_data_rows [OF assms]
  note frows = filter_data_rows [OF rows, of fc]
  from frows(1) have n: "nunique (map bed_id ?data) = length ?data" by (simp add: nunique_distinct)
  from sum_occupied [OF frows(2)] length_split_occupied [OF frows(2)]
  have "int (length ?data) - sum_list (map occupied ?data) =
      int (length (filter (\<lambda>r. occupied r = 0) ?data))" by simp
  then show ?thesis unfolding kpis_Inr n by simp
qed

text \<open>
  C6. With an empty ward selection the filtered subset is empty, all eight views are
  empty, and the key figures are computed without error, with occupancy rate 0.
\<close>

theorem empty_ward_selection:
  assumes "ward_sel fc = []"
  shows "filter_data fc df = [] \<and>
         trend (filter_data fc df) = [] \<and>
         ward_util (filter_data fc df) = [] \<and>
         hospital_util (filter_data fc df) = [] \<and>
         critical_cmp (filter_data fc df) = [] \<and>
         daily_load (filter_data fc df) = [] \<and>
         availability_dist (filter_data fc df) = [] \<and>
         heatmap (filter_data fc df) = [] \<and>
         live_table (filter_data fc df) = [] \<and>
         (\<exists>k. kpis (filter_data fc df) = Inr k \<and> kpi_total_beds k = 0 \<and> kpi_occ_rate k = 0)"
proof -
  have e: "filter_data fc df = []"
    by (simp add: filter_data_filter source_order_def assms)
  have "availability_dist [] = []"
    by (simp add: availability_dist_def value_counts_def unique_py_def map_filter_simps)
  moreover have "kpis [] = Inr \<lparr>kpi_total_beds = 0, kpi_occupied = 0, kpi_available = 0,
      kpi_occ_rate = 0\<rparr>"
    by (simp add: kpis_def nunique_def)
  ultimately show ?thesis
    unfolding e
    by (simp add: trend_def ward_util_def hospital_util_def critical_cmp_def occ_agg_Nil
        daily_load_def heatmap_def live_table_def groupby_Nil)
qed

subsection \<open>Running the pipeline on concrete inputs\<close>

lemma occ_agg_nonempty: "r \<in> set data \<Longrightarrow> \<exists>x\<in>set (occ_agg key data). grp x = key r"
proof -
  assume "r \<in> set data"
  then have "(key r, filter (\<lambda>r'. key r' = key r) data) \<in> set (groupby key data)"
    by (simp add: in_groupby)
  then show ?thesis unfolding occ_agg_def by (force simp: Let_def)
qed

lemma today_row_unfiltered:
  assumes "generate_data randint seed_fn 1706625791000000 = Inr df"
  shows "\<exists>r\<in>set (filter_data
            \<lparr>hospital_sel = ''All'', ward_sel = wards, bed_status = ''All'',
             critical_view = False, date_range = (19723, 19752)\<rparr> df).
           date r = 1706625791000000"
proof -
  from generate_data_today_row [OF assms] obtain r where "r \<in> set df"
    and "date r = 1706625791000000" and "hospital r = ''City Hospital''" and "ward r = ''ICU''"
    by blast
  then show ?thesis
    by (auto simp: filter_data_filter source_order_def wards_def date_of_def day_us_def)
qed

theorem occupancy_pct_bounds_witness:
  "\<exists>df x k. generate_data lcg_randint lcg_seed 1706625791000000 = Inr df \<and>
     x \<in> set (trend (filter_data
            \<lparr>hospital_sel = ''All'', ward_sel = wards, bed_status = ''All'',
             critical_view = False, date_range = (19723, 19752)\<rparr> df)) \<and>
     occ_row_ok x \<and>
     kpis (filter_data
            \<lparr>hospital_sel = ''All'', ward_sel = wards, bed_status = ''All'',
             critical_view = False, date_range = (19723, 19752)\<rparr> df) = Inr k \<and>
     0 \<le> kpi_occ_rate k \<and> kpi_occ_rate k \<le> 100"
proof -
  let ?fc = "\<lparr>hospital_sel = ''All'', ward_sel = wards, bed_status = ''All'',
             critical_view = False, date_range = (19723, 19752)\<rparr>"
  from generate_data_run [where randint = lcg_randint and seed_fn = lcg_seed
      and today = 1706625791000000]
  obtain df where gen: "generate_data lcg_randint lcg_seed 1706625791000000 = Inr df" by blast
  from today_row_unfiltered [OF gen] obtain r where "r \<in> set (filter_data ?fc df)" by blast
  from occ_agg_nonempty [OF this, of date] obtain x where x: "x \<in> set (trend (filter_data ?fc df))"
    by (auto simp: trend_def)
  from occupancy_pct_bounds [OF gen, of ?fc] x gen show ?thesis by blast
qed

theorem kpi_total_is_row_count_witness:
  "\<exists>df k. generate_data lcg_randint lcg_seed 1706625791000000 = Inr df \<and>
     filter_data
       \<lparr>hospital_sel = ''All'', ward_sel = wards, bed_status = ''All'',
        critical_view = False, date_range = (19723, 19752)\<rparr> df \<noteq> [] \<and>
     kpis (filter_data
            \<lparr>hospital_sel = ''All'', ward_sel = wards, bed_status = ''All'',
             critical_view = False, date_range = (19723, 19752)\<rparr> df) = Inr k \<and>
     kpi_total_beds k = int (length (filter_data
            \<lparr>hospital_sel = ''All'', ward_sel = wards, bed_status = ''All'',
             critical_view = False, date_range = (19723, 19752)\<rparr> df)) \<and>
     kpi_available k = int (length (filter (\<lambda>r. occupied r = 0) (filter_data
            \<lparr>hospital_sel = ''All'', ward_sel = wards, bed_status = ''All'',
             critical_view = False, date_range = (19723, 19752)\<rparr> df)))"
proof -
  let ?fc = "\<lparr>hospital_sel = ''All'', ward_sel = wards, bed_status = ''All'',
             critical_view = False, date_range = (19723, 19752)\<rparr>"
  from generate_data_run [where randint = lcg_randint and seed_fn = lcg_seed
      and today = 1706625791000000]
  obtain df where gen: "generate_data lcg_randint lcg_seed 1706625791000000 = Inr df" by blast
  from today_row_unfiltered [OF gen] have "filter_data ?fc df \<noteq> []" by auto
  with kpi_total_is_row_count [OF gen, of ?fc] gen show ?thesis by blast
qed

theorem empty_ward_selection_witness:
  "filter_data
     \<lparr>hospital_sel = ''All'', ward_sel = [], bed_status = ''All'',
      critical_view = False, date_range = (19723, 19752)\<rparr>
     [\<lparr>date = 1706625791000000, hospital = ''City Hospital'', ward = ''ICU'',
       bed_id = ''B-1'', occupied = 1\<rparr>] = [] \<and>
   heatmap (filter_data
     \<lparr>hospital_sel = ''All'', ward_sel = [], bed_status = ''All'',
      critical_view = False, date_range = (19723, 19752)\<rparr>
     [\<lparr>date = 1706625791000000, hospital = ''City Hospital'', ward = ''ICU'',
       bed_id = ''B-1'', occupied = 1\<rparr>]) = []"
proof -
  let ?fc = "\<lparr>hospital_sel = ''All'', ward_sel = [], bed_status = ''All'',
      critical_view = False, date_range = (19723, 19752)\<rparr>"
  let ?df = "[\<lparr>date = 1706625791000000, hospital = ''City Hospital'', ward = ''ICU'',
       bed_id = ''B-1'', occupied = 1\<rparr>]"
  have w: "ward_sel ?fc = []" by simp
  from empty_ward_selection [OF w, of ?df] show ?thesis by blast
qed

text \<open>
  C7. With the check box ticked, a row is kept only if its ward is both selected and one
  of ICU and Emergency (and it passes the hospital, status and date filters); with ICU
  and General selected, the rows kept are those of ICU.
\<close>

theorem critical_only_intersects:
  assumes "critical_view fc"
  shows "filter_data fc df =
           filter (\<lambda>r. ward r \<in> set (ward_sel fc) \<inter> {''ICU'', ''Emergency''} \<and>
                       step_pred fc HospitalF r \<and> step_pred fc StatusF r \<and> step_pred fc DateF r) df
         \<and> (set (ward_sel fc) = {''ICU'', ''General''} \<longrightarrow>
              filter_data fc df =
                filter (\<lambda>r. ward r = ''ICU'' \<and>
                       step_pred fc HospitalF r \<and> step_pred fc StatusF r \<and> step_pred fc DateF r) df)"
proof -
  have 1: "filter_data fc df =
           filter (\<lambda>r. ward r \<in> set (ward_sel fc) \<inter> {''ICU'', ''Emergency''} \<and>
                       step_pred fc HospitalF r \<and> step_pred fc StatusF r \<and> step_pred fc DateF r) df"
    unfolding filter_data_filter source_order_def using assms
    by (intro filter_cong refl) auto
  have 2: "set (ward_sel fc) \<inter> {''ICU'', ''Emergency''} = {''ICU''}"
    if "set (ward_sel fc) = {''ICU'', ''General''}"
    using that by auto
  show ?thesis
  proof (intro conjI impI)
    show "filter_data fc df =
           filter (\<lambda>r. ward r \<in> set (ward_sel fc) \<inter> {''ICU'', ''Emergency''} \<and>
                       step_pred fc HospitalF r \<and> step_pred fc StatusF r \<and> step_pred fc DateF r) df"
      by (rule 1)
  next
    assume "set (ward_sel fc) = {''ICU'', ''General''}"
    from 2 [OF this] show "filter_data fc df =
                filter (\<lambda>r. ward r = ''ICU'' \<and>
                       step_pred fc HospitalF r \<and> step_pred fc StatusF r \<and> step_pred fc DateF r) df"
      unfolding 1 by simp
  qed
qed

theorem critical_only_intersects_witness:
  "filter_data
     \<lparr>hospital_sel = ''All'', ward_sel = [''ICU'', ''General''], bed_status = ''All'',
      critical_view = True, date_range = (19723, 19752)\<rparr>
     [\<lparr>date = 1706625791000000, hospital = ''City Hospital'', ward = ''ICU'',
       bed_id = ''B-1'', occupied = 1\<rparr>,
      \<lparr>date = 1706625791000000, hospital = ''City Hospital'', ward = ''Emergency'',
       bed_id = ''B-21'', occupied = 1\<rparr>,
      \<lparr>date = 1706625791000000, hospital = ''City Hospital'', ward = ''General'',
       bed_id = ''B-51'', occupied = 0\<rparr>] =
   [\<lparr>date = 1706625791000000, hospital = ''City Hospital'', ward = ''ICU'',
       bed_id = ''B-1'', occupied = 1\<rparr>]"
proof -
  let ?fc = "\<lparr>hospital_sel = ''All'', ward_sel = [''ICU'', ''General''], bed_status = ''All'',
      critical_view = True, date_range = (19723, 19752)\<rparr>"
  have c: "critical_view ?fc" by simp
  have s: "set (ward_sel ?fc) = {''ICU'', ''General''}" by simp
  from critical_only_intersects [OF c, THEN conjunct2, rule_format, OF s]
  show ?thesis by (simp add: date_of_def day_us_def)
qed

subsection \<open>The availability distribution\<close>

lemma labels_Cons:
  "List.map_filter (\<lambda>x. x) (map (\<lambda>r. status_label (occupied r)) (r # data)) =
     (if occupied r = 0 then [''Available'']
      else if occupied r = 1 then [''Occupied''] else []) @
     List.map_filter (\<lambda>x. x) (map (\<lambda>r. status_label (occupied r)) data)"
  by (simp add: map_filter_simps status_label_def)

lemma count_labels:
  "count_list (List.map_filter (\<lambda>x. x) (map (\<lambda>r. status_label (occupied r)) data)) s =
     (if s = ''Available'' then length (filter (\<lambda>r. occupied r = 0) data)
      else if s = ''Occupied'' then length (filter (\<lambda>r. occupied r = 1) data)
      else 0)"
proof (induction data)
  case Nil
  show ?case by (simp add: map_filter_simps)
next
  case (Cons r data)
  show ?case unfolding labels_Cons by (simp add: Cons.IH)
qed

lemma set_labels:
  "set (List.map_filter (\<lambda>x. x) (map (\<lambda>r. status_label (occupied r)) data)) =
     (if 0 \<in> occupied ` set data then {''Available''} else {}) \<union>
     (if 1 \<in> occupied ` set data then {''Occupied''} else {})"
proof (induction data)
  case Nil
  show ?case by (simp add: map_filter_simps)
next
  case (Cons r data)
  show ?case unfolding labels_Cons by (auto simp: Cons.IH)
qed

lemma set_value_counts:
  "set (value_counts xs) =
     (\<lambda>v. (v, count_list (List.map_filter (\<lambda>x. x) xs) v)) ` set (List.map_filter (\<lambda>x. x) xs)"
  by (simp add: value_counts_def unique_py_def Let_def)

lemma length_value_counts:
  "length (value_counts xs) = card (set (List.map_filter (\<lambda>x. x) xs))"
  by (simp add: value_counts_def unique_py_def Let_def length_remdups_card_conv)

lemma count_pos_iff:
  "0 < length (filter (\<lambda>r. occupied r = v) data) \<longleftrightarrow> v \<in> occupied ` set data"
  by (auto simp: filter_empty_conv)

text \<open>
  C9 as the code has it. The availability distribution holds the raw counts of the rows
  with status Available and with status Occupied, one row for each status that occurs
  in the filtered subset: two rows only when both occur.
\<close>

theorem availability_dist_rows:
  "set (availability_dist data) =
     {(s, n). 0 < n \<and>
        (s = ''Available'' \<and> n = length (filter (\<lambda>r. occupied r = 0) data) \<or>
         s = ''Occupied'' \<and> n = length (filter (\<lambda>r. occupied r = 1) data))} \<and>
   length (availability_dist data) =
     (if 0 \<in> occupied ` set data then 1 else 0) + (if 1 \<in> occupied ` set data then 1 else 0)"
proof (rule conjI)
  show "set (availability_dist data) =
     {(s, n). 0 < n \<and>
        (s = ''Available'' \<and> n = length (filter (\<lambda>r. occupied r = 0) data) \<or>
         s = ''Occupied'' \<and> n = length (filter (\<lambda>r. occupied r = 1) data))}"
    unfolding availability_dist_def set_value_counts set_labels count_labels
    by (auto simp: count_pos_iff [symmetric] split: if_splits)
next
  have "''Available'' \<noteq> ''Occupied''" by simp
  then show "length (availability_dist data) =
     (if 0 \<in> occupied ` set data then 1 else 0) + (if 1 \<in> occupied ` set data then 1 else 0)"
    unfolding availability_dist_def length_value_counts set_labels
    by (simp add: card_insert_if)
qed

theorem availability_dist_rows_witness:
  "length (availability_dist
     [\<lparr>date = 1706625791000000, hospital = ''City Hospital'', ward = ''ICU'',
       bed_id = ''B-1'', occupied = 1\<rparr>,
      \<lparr>date = 1706625791000000, hospital = ''City Hospital'', ward = ''ICU'',
       bed_id = ''B-2'', occupied = 1\<rparr>]) = 1"
  using availability_dist_rows [of
     "[\<lparr>date = 1706625791000000, hospital = ''City Hospital'', ward = ''ICU'',
       bed_id = ''B-1'', occupied = 1\<rparr>,
      \<lparr>date = 1706625791000000, hospital = ''City Hospital'', ward = ''ICU'',
       bed_id = ''B-2'', occupied = 1\<rparr>]", THEN conjunct2]
  by simp

theorem availability_dist_two_rows_counterexample:
  "availability_dist (filter_data
     \<lparr>hospital_sel = ''All'', ward_sel = [''ICU''], bed_status = ''Occupied'',
      critical_view = False, date_range = (19723, 19752)\<rparr>
     [\<lparr>date = 1706625791000000, hospital = ''City Hospital'', ward = ''ICU'',
       bed_id = ''B-1'', occupied = 1\<rparr>,
      \<lparr>date = 1706625791000000, hospital = ''City Hospital'', ward = ''ICU'',
       bed_id = ''B-20'', occupied = 0\<rparr>]) = [(''Occupied'', 1)]"
  by (simp add: filter_data_def date_of_def day_us_def availability_dist_def value_counts_def
      unique_py_def status_label_def List.map_filter_def)

subsection \<open>Two runs at different instants\<close>

lemma block_shift: "map (shift_date delta) (block d h w occ b n) = block (d + delta) h w occ b n"
  by (simp add: block_def shift_date_def mk_row_def)

lemma group_loop_shift:
  "group_loop randint ks (g, b, data) = Inr (g', b', data') \<Longrightarrow>
     group_loop randint (map (shift_key delta) ks) (g, b, map (shift_date delta) data) =
       Inr (g', b', map (shift_date delta) data')"
proof (induction ks arbitrary: g b data)
  case Nil
  then show ?case by simp
next
  case (Cons k ks)
  obtain d1 h1 w1 where k: "k = (d1, h1, w1)" by (cases k)
  from Cons.prems(1) obtain c where c: "capacity_of w1 = Some c" "int_half c < c"
    and run: "group_loop randint ks
           (snd (randint (int_half c) c g), b + nat c,
            data @ block d1 h1 w1 (fst (randint (int_half c) c g)) b (nat c)) = Inr (g', b', data')"
    unfolding k by (rule group_loop_ConsE)
  from Cons.IH [OF run] c show ?case
    by (simp add: k shift_key_def group_loop_Cons block_shift del: group_loop.simps)
qed

lemma ward_keys_shift: "ward_keys (d + delta) = (\<lambda>h. map (shift_key delta) (ward_keys d h))"
  by (rule ext) (simp add: ward_keys_def shift_key_def)

lemma hosp_keys_shift: "hosp_keys (d + delta) = map (shift_key delta) (hosp_keys d)"
  by (simp add: hosp_keys_def map_concat ward_keys_shift comp_def)

lemma all_keys_shift: "all_keys (map (\<lambda>d. d + delta) ds) = map (shift_key delta) (all_keys ds)"
  by (simp add: all_keys_def map_concat hosp_keys_shift comp_def)

lemma date_range_end_shift:
  "date_range_end (t + delta) n = map (\<lambda>d. d + delta) (date_range_end t n)"
  by (simp add: date_range_end_def)

lemma generate_data_shift:
  assumes "generate_data randint seed_fn t = Inr df"
  shows "generate_data randint seed_fn (t + delta) = Inr (map (shift_date delta) df)"
proof -
  from generate_data_run [where randint = randint and seed_fn = seed_fn and today = t]
  obtain g' b' df'
    where run: "group_loop randint (all_keys (date_range_end t 30)) (seed_fn 42, 1, []) =
        Inr (g', b', df')"
      and gen: "generate_data randint seed_fn t = Inr df'" by blast
  from gen assms have eq: "df' = df" by simp
  from group_loop_shift [OF run, of delta]
  show ?thesis
    by (simp add: generate_data_def date_loop_group date_range_end_shift all_keys_shift eq)
qed

lemma date_of_day_shift: "date_of (t - j * day_us) = date_of t - j"
  by (simp add: date_of_def day_us_def)

lemma date_of_range:
  assumes "d \<in> set (date_range_end t n)" and "date_of t = date_of t'"
  shows "date_of (d + (t' - t)) = date_of d"
proof -
  from assms(1) obtain j where d: "d = t - j * day_us"
    by (auto simp: date_range_end_def)
  then have "d + (t' - t) = t' - j * day_us" by simp
  then have "date_of (d + (t' - t)) = date_of t' - j" by (simp only: date_of_day_shift)
  also have "\<dots> = date_of d" by (simp only: d date_of_day_shift assms(2))
  finally show ?thesis .
qed

lemma generate_data_dates:
  assumes "generate_data randint seed_fn today = Inr df"
  shows "\<forall>r\<in>set df. date r \<in> set (date_range_end today 30)"
proof -
  from generate_data_run [where randint = randint and seed_fn = seed_fn and today = today]
  obtain g' b' df'
    where run: "group_loop randint (all_keys (date_range_end today 30)) (seed_fn 42, 1, []) =
        Inr (g', b', df')"
      and gen: "generate_data randint seed_fn today = Inr df'" by blast
  from gen assms have eq: "df' = df" by simp
  have "\<forall>r\<in>set df'. (date r, hospital r, ward r) \<in> set (all_keys (date_range_end today 30))"
    by (rule group_loop_keys [OF run]) simp_all
  then show ?thesis by (simp add: set_all_keys eq)
qed

text \<open>
  C4 as the code has it. The data frame is a function of the random stream and of the
  instant \<open>datetime.today()\<close> returns, time of day included. Two runs with the same
  stream at the instants \<open>t1\<close> and \<open>t2\<close> agree in every column but \<open>date\<close>, which is
  moved by \<open>t2 - t1\<close> in every row; when the two instants fall on the same calendar day
  the rows still carry the same calendar days.
\<close>

theorem generate_data_two_runs:
  assumes "generate_data randint seed_fn t1 = Inr df1"
    and "generate_data randint seed_fn t2 = Inr df2"
  shows "df2 = map (shift_date (t2 - t1)) df1 \<and>
         (date_of t1 = date_of t2 \<longrightarrow>
            map (\<lambda>r. date_of (date r)) df2 = map (\<lambda>r. date_of (date r)) df1)"
proof -
  from generate_data_shift [OF assms(1), of "t2 - t1"] assms(2)
  have eq: "df2 = map (shift_date (t2 - t1)) df1" by simp
  have "map (\<lambda>r. date_of (date r)) df2 = map (\<lambda>r. date_of (date r)) df1"
    if same: "date_of t1 = date_of t2"
  proof -
    have "date_of (date (shift_date (t2 - t1) r)) = date_of (date r)" if "r \<in> set df1" for r
    proof -
      from generate_data_dates [OF assms(1)] that have "date r \<in> set (date_range_end t1 30)"
        by blast
      from date_of_range [OF this same] show ?thesis by (simp add: shift_date_def)
    qed
    then show ?thesis by (simp add: eq)
  qed
  with eq show ?thesis by blast
qed

theorem generate_data_two_runs_witness:
  "\<exists>df1 df2. generate_data lcg_randint lcg_seed 1706625791000000 = Inr df1 \<and>
     generate_data lcg_randint lcg_seed 1706625792000000 = Inr df2 \<and>
     df2 = map (shift_date 1000000) df1 \<and>
     map (\<lambda>r. date_of (date r)) df2 = map (\<lambda>r. date_of (date r)) df1"
proof -
  from generate_data_run [where randint = lcg_randint and seed_fn = lcg_seed
      and today = 1706625791000000]
  obtain df1 where g1: "generate_data lcg_randint lcg_seed 1706625791000000 = Inr df1" by blast
  from generate_data_run [where randint = lcg_randint and seed_fn = lcg_seed
      and today = 1706625792000000]
  obtain df2 where g2: "generate_data lcg_randint lcg_seed 1706625792000000 = Inr df2" by blast
  have same: "date_of 1706625791000000 = date_of 1706625792000000"
    by (simp add: date_of_def day_us_def)
  from generate_data_two_runs [OF g1 g2] same
  have "df2 = map (shift_date (1706625792000000 - 1706625791000000)) df1"
    and d: "map (\<lambda>r. date_of (date r)) df2 = map (\<lambda>r. date_of (date r)) df1" by blast+
  then have "df2 = map (shift_date 1000000) df1" by simp
  with g1 g2 d show ?thesis by blast
qed

theorem generate_data_same_day_counterexample:
  "date_of 1706625791000000 = date_of 1706625792000000 \<and>
   generate_data lcg_randint lcg_seed 1706625791000000 \<noteq>
   generate_data lcg_randint lcg_seed 1706625792000000"
proof (rule conjI)
  show "date_of 1706625791000000 = date_of 1706625792000000"
    by (simp add: date_of_def day_us_def)
next
  from generate_data_run [where randint = lcg_randint and seed_fn = lcg_seed
      and today = 1706625791000000]
  obtain df1 where g1: "generate_data lcg_randint lcg_seed 1706625791000000 = Inr df1" by blast
  from generate_data_shift [OF g1, of 1000000]
  have g2: "generate_data lcg_randint lcg_seed 1706625792000000 = Inr (map (shift_date 1000000) df1)"
    by simp
  from generate_data_today_row [OF g1] obtain r where r: "r \<in> set df1" by blast
  have "map (shift_date 1000000) df1 \<noteq> df1"
  proof
    assume "map (shift_date 1000000) df1 = df1"
    then have "map date (map (shift_date 1000000) df1) = map date df1" by simp
    then have "map (\<lambda>r. date r + 1000000) df1 = map date df1"
      by (simp add: shift_date_def comp_def)
    with r have "date r + 1000000 = date r" by (simp add: map_eq_conv)
    then show False by simp
  qed
  with g1 g2 show "generate_data lcg_randint lcg_seed 1706625791000000 \<noteq>
   generate_data lcg_randint lcg_seed 1706625792000000" by simp
qed

end
